theory Spec2Isabelle
  imports Complex_Main
begin

section \<open>The evolution simulator of evolve.py\<close>

text \<open>
  The program keeps a list of individuals, each a Python dict with the keys
  \<^verbatim>\<open>'s'\<close> (power), \<^verbatim>\<open>'l'\<close> (life status), \<^verbatim>\<open>'id'\<close> and \<^verbatim>\<open>'a'\<close> (age).
  A dict becomes a record whose fields carry the key after the prefix \<open>key_\<close>; the
  two status strings become a datatype. The integers of the program (ids, ages, counts,
  the quota, the generation index) start at 0 and are only ever incremented, or decremented
  right after a test that they are not 0, so they are natural numbers. Powers and random
  draws are Python floats; they are modelled as real numbers, and rounding is not modelled.
  The lines that the program prints are not modelled either: \<^verbatim>\<open>print_stats\<close> only
  prints, and has no counterpart here.
\<close>

datatype status = Alive | Dead

record individual =
  key_s :: real
  key_l :: status
  key_id :: nat
  key_a :: nat

text \<open>What the program can raise, as values.\<close>

datatype error = IndexError | ZeroDivisionError | UnboundLocalError

subsection \<open>The random module\<close>

text \<open>
  The module \<^verbatim>\<open>random\<close> (imported as \<^verbatim>\<open>R\<close>) is not part of the program. Its three
  functions are parameters: each gives the value that the call returns, from the call's
  arguments and from the number of calls made to the module so far, which stands for the
  generator's state. Every call advances that counter by one.
\<close>

record random_source =
  R_triangular :: "real \<Rightarrow> real \<Rightarrow> nat \<Rightarrow> real"
  R_random :: "nat \<Rightarrow> real"
  R_uniform :: "real \<Rightarrow> real \<Rightarrow> nat \<Rightarrow> real"

subsection \<open>initialize\<close>

text \<open>
  The loop variable of \<^verbatim>\<open>initialize\<close> is not used in the body, so the loop is a
  recursion on the number of iterations left. The list grows by \<^verbatim>\<open>append\<close>.
\<close>

fun initialize_loop ::
  "random_source \<Rightarrow> nat \<Rightarrow> individual list \<Rightarrow> nat \<Rightarrow> nat \<Rightarrow> individual list \<times> nat \<times> nat" where
  "initialize_loop rnd 0 p n k = (p, n, k)"
| "initialize_loop rnd (Suc m) p n k =
     initialize_loop rnd m
       (p @ [\<lparr>key_s = R_triangular rnd 0 5 k, key_l = Alive, key_id = n, key_a = 0\<rparr>])
       (n + 1) (Suc k)"

definition initialize :: "random_source \<Rightarrow> nat \<Rightarrow> nat \<Rightarrow> individual list \<times> nat \<times> nat" where
  "initialize rnd pop k = initialize_loop rnd pop [] 0 k"

subsection \<open>parent\_power\<close>

text \<open>
  The loops over \<^verbatim>\<open>range(0, pop)\<close> read \<^verbatim>\<open>p[i]\<close>, which raises IndexError when
  the list is shorter than \<^verbatim>\<open>pop\<close>.
\<close>

function parent_power_loop ::
  "individual list \<Rightarrow> nat \<Rightarrow> nat \<Rightarrow> real \<Rightarrow> nat \<Rightarrow> error + (real \<times> nat)" where
  "parent_power_loop p pop i sm count =
     (if i < pop then
        (if i < length p then
           (if key_l (p ! i) = Alive
            then parent_power_loop p pop (Suc i) (sm + key_s (p ! i)) (count + 1)
            else parent_power_loop p pop (Suc i) sm count)
         else Inl IndexError)
      else Inr (sm, count))"
  by pat_completeness auto
termination
  by (relation "measure (\<lambda>(p, pop, i, sm, count). pop - i)") auto

declare parent_power_loop.simps [simp del]

definition parent_power :: "individual list \<Rightarrow> nat \<Rightarrow> error + (real \<times> nat)" where
  "parent_power p pop =
     (case parent_power_loop p pop 0 0 0 of
        Inl e \<Rightarrow> Inl e
      | Inr (sm, count) \<Rightarrow>
          if count = 0 then Inr (0, 0) else Inr (sm / real count, count))"

subsection \<open>kill\<close>

text \<open>
  \<^verbatim>\<open>int(f)\<close> truncates a float towards zero. \<^verbatim>\<open>kill\<close> returns \<^verbatim>\<open>True\<close>,
  \<^verbatim>\<open>False\<close>, or falls off its end and returns \<^verbatim>\<open>None\<close>: the result is a
  \<open>bool option\<close>, and \<open>truthy\<close> is what an \<^verbatim>\<open>if\<close> makes of it. The result
  comes with the advanced call counter.
\<close>

definition int_of_float :: "real \<Rightarrow> int" where
  "int_of_float f = (if 0 \<le> f then \<lfloor>f\<rfloor> else \<lceil>f\<rceil>)"

fun truthy :: "bool option \<Rightarrow> bool" where
  "truthy None = False"
| "truthy (Some b) = b"

fun kill_loop :: "random_source \<Rightarrow> nat \<Rightarrow> nat \<Rightarrow> bool option \<times> nat" where
  "kill_loop rnd 0 k = (Some False, k)"
| "kill_loop rnd (Suc m) k =
     (if R_random rnd k > 0.6 then (Some True, Suc k) else kill_loop rnd m (Suc k))"

definition kill :: "random_source \<Rightarrow> real \<Rightarrow> nat \<Rightarrow> bool option \<times> nat" where
  "kill rnd f k =
     (if f > 0 then kill_loop rnd (nat (int_of_float f ^ 2)) k else (None, k))"

subsection \<open>pressure\<close>

function pressure_loop ::
  "random_source \<Rightarrow> individual list \<Rightarrow> real \<Rightarrow> nat \<Rightarrow> nat \<Rightarrow> nat \<Rightarrow> error + (individual list \<times> nat)" where
  "pressure_loop rnd p pressure pop i k =
     (if i < pop then
        (if i < length p then
           (if truthy (fst (kill rnd (pressure - key_s (p ! i)) k))
            then pressure_loop rnd (p[i := (p ! i)\<lparr>key_l := Dead\<rparr>]) pressure pop (Suc i)
                   (snd (kill rnd (pressure - key_s (p ! i)) k))
            else pressure_loop rnd p pressure pop (Suc i)
                   (snd (kill rnd (pressure - key_s (p ! i)) k)))
         else Inl IndexError)
      else Inr (p, k))"
  by pat_completeness auto
termination
  by (relation "measure (\<lambda>(rnd, p, pressure, pop, i, k). pop - i)") auto

declare pressure_loop.simps [simp del]

definition pressure ::
  "random_source \<Rightarrow> individual list \<Rightarrow> nat \<Rightarrow> nat \<Rightarrow> nat \<Rightarrow> error + (individual list \<times> real \<times> nat)" where
  "pressure rnd p gen pop k =
     (case pressure_loop rnd p ((real gen + 5) * (0.8 + real gen / 200)) pop 0 k of
        Inl e \<Rightarrow> Inl e
      | Inr (p', k') \<Rightarrow> Inr (p', (real gen + 5) * (0.8 + real gen / 200), k'))"

subsection \<open>print\_living\<close>

text \<open>
  \<^verbatim>\<open>print_living\<close> walks the list itself. Its six local variables are the fields of a record, after the prefix \<open>pl_\<close>; the
  lines it prints are not modelled. \<^verbatim>\<open>weak\<close> starts as the integer 0 and
  \<^verbatim>\<open>old\<close> as 1.
\<close>

record living =
  pl_weak :: real
  pl_wid :: nat
  pl_strong :: real
  pl_sid :: nat
  pl_old :: nat
  pl_oid :: nat

definition print_living_body :: "individual \<Rightarrow> living \<Rightarrow> living" where
  "print_living_body i v =
     (if key_l i = Alive then
        (let v1 = (if pl_weak v > key_s i \<or> pl_weak v = 0
                   then v\<lparr>pl_weak := key_s i, pl_wid := key_id i\<rparr> else v);
             v2 = (if pl_strong v1 < key_s i
                   then v1\<lparr>pl_strong := key_s i, pl_sid := key_id i\<rparr> else v1)
         in (if pl_old v2 < key_a i
             then v2\<lparr>pl_old := key_a i, pl_oid := key_id i\<rparr> else v2))
      else v)"

fun print_living_loop :: "individual list \<Rightarrow> living \<Rightarrow> living" where
  "print_living_loop [] v = v"
| "print_living_loop (i # p) v = print_living_loop p (print_living_body i v)"

definition print_living_vars :: "individual list \<Rightarrow> living" where
  "print_living_vars p =
     print_living_loop p \<lparr>pl_weak = 0, pl_wid = 0, pl_strong = 0, pl_sid = 0, pl_old = 1, pl_oid = 0\<rparr>"

definition print_living :: "individual list \<Rightarrow> nat \<Rightarrow> real \<times> nat \<times> nat \<times> nat" where
  "print_living p pop =
     (let v = print_living_vars p in (pl_strong v, pl_sid v, pl_old v, pl_oid v))"

subsection \<open>simulate\<close>

text \<open>
  The variables of \<^verbatim>\<open>simulate\<close> that live across generations, with the call
  counter of the random module. \<open>v_born\<close> is not a variable of the program: it records
  the id given to each individual at its creation, in creation order, and nothing reads it.
  It starts as the ids of the list that \<^verbatim>\<open>initialize\<close> built, and the respawn loop
  appends the id of every dict it creates.
\<close>

record sim_vars =
  v_p :: "individual list"
  v_n :: nat
  v_fittest :: real
  v_fitid :: nat
  v_old_env :: real
  v_oldest :: nat
  v_oldid :: nat
  v_oldgen :: nat
  v_k :: nat
  v_born :: "nat list"

text \<open>
  The respawn loop of lines 133 to 145. \<^verbatim>\<open>new\<close> is the quota left; the loop breaks
  as soon as it is 0. A Dead slot is replaced by a fresh dict, an Alive one has its age
  incremented. The result is the list, the next id, the quota left, the call counter and
  the record of births.
\<close>

function respawn_loop ::
  "random_source \<Rightarrow> real \<Rightarrow> real \<Rightarrow> nat \<Rightarrow> nat \<Rightarrow> individual list \<Rightarrow> nat \<Rightarrow> nat \<Rightarrow> nat \<Rightarrow> nat list
     \<Rightarrow> error + (individual list \<times> nat \<times> nat \<times> nat \<times> nat list)" where
  "respawn_loop rnd avg mut pop i p n new k born =
     (if i < pop then
        (if new = 0 then Inr (p, n, new, k, born)
         else if i < length p then
           (if key_l (p ! i) = Dead
            then respawn_loop rnd avg mut pop (Suc i)
                   (p[i := \<lparr>key_s = avg + R_uniform rnd (- 1 * mut) mut k, key_l = Alive,
                            key_id = n, key_a = 0\<rparr>])
                   (n + 1) (new - 1) (Suc k) (born @ [n])
            else respawn_loop rnd avg mut pop (Suc i)
                   (p[i := (p ! i)\<lparr>key_a := key_a (p ! i) + 1\<rparr>]) n new k born)
         else Inl IndexError)
      else Inr (p, n, new, k, born))"
  by pat_completeness auto
termination
  by (relation "measure (\<lambda>(rnd, avg, mut, pop, i, p, n, new, k, born). pop - i)") auto

declare respawn_loop.simps [simp del]

text \<open>Python's \<^verbatim>\<open>/\<close> raises ZeroDivisionError on a zero divisor.\<close>

definition py_div :: "real \<Rightarrow> real \<Rightarrow> error + real" where
  "py_div x y = (if y = 0 then Inl ZeroDivisionError else Inr (x / y))"

text \<open>
  One pass through the body of the generation loop: it either returns from
  \<^verbatim>\<open>simulate\<close> (the population went extinct) or goes on to the next generation.
\<close>

datatype step = Return sim_vars | Continue sim_vars

definition generation :: "random_source \<Rightarrow> nat \<Rightarrow> nat \<Rightarrow> sim_vars \<Rightarrow> error + step" where
  "generation rnd pop gen v =
     (case parent_power (v_p v) pop of
        Inl e \<Rightarrow> Inl e
      | Inr (avg, count) \<Rightarrow>
          if avg = 0 \<or> count = 1 then Inr (Return v)
          else
            (case print_living (v_p v) pop of
               (strong, sid, old, oid) \<Rightarrow>
                 (case py_div 6 (real count) of
                    Inl e \<Rightarrow> Inl e
                  | Inr q \<Rightarrow>
                      (case respawn_loop rnd avg (real gen / 100 + 3 + q ^ 2) pop 0
                              (v_p v) (v_n v) (count * 2) (v_k v) (v_born v) of
                         Inl e \<Rightarrow> Inl e
                       | Inr (p1, n1, new1, k1, born1) \<Rightarrow>
                           (case pressure rnd p1 gen pop k1 of
                              Inl e \<Rightarrow> Inl e
                            | Inr (p2, env, k2) \<Rightarrow>
                                Inr (Continue
                                  \<lparr>v_p = p2, v_n = n1,
                                   v_fittest = (if strong - env > v_fittest v
                                                then strong - env else v_fittest v),
                                   v_fitid = (if strong - env > v_fittest v
                                              then sid else v_fitid v),
                                   v_old_env = (if strong - env > v_fittest v
                                                then env else v_old_env v),
                                   v_oldest = (if old > v_oldest v then old else v_oldest v),
                                   v_oldid = (if old > v_oldest v then oid else v_oldid v),
                                   v_oldgen = (if old > v_oldest v then gen else v_oldgen v),
                                   v_k = k2, v_born = born1\<rparr>))))))"

text \<open>
  How \<^verbatim>\<open>simulate\<close> ends: with the message that the population went extinct, or
  with the message that it succeeded. Both come with the value of \<^verbatim>\<open>gen\<close> handed
  to \<^verbatim>\<open>print_stats\<close>. After a loop of no iteration \<^verbatim>\<open>gen\<close> was never
  assigned, and reading it raises UnboundLocalError.
\<close>

datatype outcome = Extinct | Succeeded

function simulate_loop ::
  "random_source \<Rightarrow> nat \<Rightarrow> nat \<Rightarrow> nat \<Rightarrow> sim_vars \<Rightarrow> error + (outcome \<times> nat \<times> sim_vars)" where
  "simulate_loop rnd pop generations gen v =
     (if gen < generations then
        (case generation rnd pop gen v of
           Inl e \<Rightarrow> Inl e
         | Inr (Return v') \<Rightarrow> Inr (Extinct, gen, v')
         | Inr (Continue v') \<Rightarrow> simulate_loop rnd pop generations (Suc gen) v')
      else if generations = 0 then Inl UnboundLocalError
      else Inr (Succeeded, generations - 1, v))"
  by pat_completeness auto
termination
  by (relation "measure (\<lambda>(rnd, pop, generations, gen, v). generations - gen)") auto

declare simulate_loop.simps [simp del]

definition simulate ::
  "random_source \<Rightarrow> nat \<Rightarrow> nat \<Rightarrow> error + (outcome \<times> nat \<times> sim_vars)" where
  "simulate rnd pop generations =
     (case initialize rnd pop 0 of
        (p, n, k) \<Rightarrow>
          simulate_loop rnd pop generations 0
            \<lparr>v_p = p, v_n = n, v_fittest = 0, v_fitid = 0, v_old_env = 0, v_oldest = 0,
             v_oldid = 0, v_oldgen = 0, v_k = k, v_born = map key_id p\<rparr>)"

subsection \<open>The script\<close>

text \<open>
  The script reads two lines and converts each with \<^verbatim>\<open>int\<close>, which is a parameter
  here: \<open>None\<close> is its ValueError. \<^verbatim>\<open>exit(1)\<close> ends the run with the message
  printed just before; otherwise \<^verbatim>\<open>simulate\<close> runs on the two integers, which are
  at least 10 and 51 there.
\<close>

datatype run = Exit1 string | Simulated "error + (outcome \<times> nat \<times> sim_vars)"

definition script ::
  "(string \<Rightarrow> int option) \<Rightarrow> random_source \<Rightarrow> string \<Rightarrow> string \<Rightarrow> run" where
  "script int_of rnd line1 line2 =
     (case int_of line1 of
        None \<Rightarrow> Exit1 ''Please insert an integer.''
      | Some maxpop \<Rightarrow>
          (case int_of line2 of
             None \<Rightarrow> Exit1 ''Please insert an integer.''
           | Some maxgen \<Rightarrow>
               if maxpop < 10
               then Exit1 ''Please choose a population size between 9 and 100000.''
               else if maxgen < 51
               then Exit1 ''Please choose a simulation time greater than 50 (up to roughly 275).''
               else Simulated (simulate rnd (nat maxpop) (nat maxgen))))"

subsection \<open>The invariant of the generation loop\<close>

text \<open>
  What holds of the variables of \<^verbatim>\<open>simulate\<close> at the head of the generation
  loop: the list has \<^verbatim>\<open>pop\<close> slots, the ids handed out so far are those below
  \<^verbatim>\<open>n\<close>, in order, and the ids in the list are distinct and below \<^verbatim>\<open>n\<close>.
\<close>

definition run_inv :: "nat \<Rightarrow> sim_vars \<Rightarrow> bool" where
  "run_inv pop v \<longleftrightarrow>
     length (v_p v) = pop \<and> v_born v = [0..<v_n v] \<and>
     distinct (map key_id (v_p v)) \<and> (\<forall>x\<in>set (v_p v). key_id x < v_n v)"

text \<open>The number of Dead slots among the slots \<open>i\<close> to \<open>j - 1\<close> of a list.\<close>

definition dead_between :: "individual list \<Rightarrow> nat \<Rightarrow> nat \<Rightarrow> nat" where
  "dead_between p i j = length (filter (\<lambda>t. key_l (p ! t) = Dead) [i..<j])"

text \<open>
  What the respawn loop, started at slot \<open>i\<close> with the quota \<open>new\<close>, leaves in slot
  \<open>j\<close>: the loop reaches the slot when fewer than \<open>new\<close> Dead slots come before
  it; it then replaces a Dead slot by a newborn and ages an Alive one.
\<close>

definition newborn :: "random_source \<Rightarrow> real \<Rightarrow> real \<Rightarrow> nat \<Rightarrow> nat \<Rightarrow> individual" where
  "newborn rnd avg mut n k =
     \<lparr>key_s = avg + R_uniform rnd (- 1 * mut) mut k, key_l = Alive, key_id = n, key_a = 0\<rparr>"

definition respawned ::
  "random_source \<Rightarrow> real \<Rightarrow> real \<Rightarrow> nat \<Rightarrow> nat \<Rightarrow> individual list \<Rightarrow> nat \<Rightarrow> nat \<Rightarrow> nat \<Rightarrow> nat \<Rightarrow> individual" where
  "respawned rnd avg mut pop i p n new k j =
     (if i \<le> j \<and> j < pop \<and> dead_between p i j < new
      then (if key_l (p ! j) = Dead
            then newborn rnd avg mut (n + dead_between p i j) (k + dead_between p i j)
            else (p ! j)\<lparr>key_a := key_a (p ! j) + 1\<rparr>)
      else p ! j)"

subsection \<open>Concrete inputs\<close>

text \<open>
  A random module whose \<^verbatim>\<open>triangular\<close> always returns 2.5, whose
  \<^verbatim>\<open>uniform\<close> always returns 0, and whose \<^verbatim>\<open>random\<close> returns 0.7 at the
  second call and 0.5 at every other one.
\<close>

definition second_draw_high :: random_source where
  "second_draw_high =
     \<lparr>R_triangular = (\<lambda>lo hi k. 5 / 2),
      R_random = (\<lambda>k. if k = 1 then 7 / 10 else 1 / 2),
      R_uniform = (\<lambda>a b k. 0)\<rparr>"

text \<open>Two slots of power 2.5 and age 1: a Dead one, then an Alive one.\<close>

definition dead_then_alive :: "individual list" where
  "dead_then_alive =
     [\<lparr>key_s = 5 / 2, key_l = Dead, key_id = 0, key_a = 1\<rparr>,
      \<lparr>key_s = 5 / 2, key_l = Alive, key_id = 1, key_a = 1\<rparr>]"

text \<open>
  A random module whose \<^verbatim>\<open>triangular\<close> and \<^verbatim>\<open>uniform\<close> return their lower
  bound, as they do when the generator's underlying draw is 0.
\<close>

definition lowest_draws :: random_source where
  "lowest_draws =
     \<lparr>R_triangular = (\<lambda>lo hi k. lo), R_random = (\<lambda>k. 1 / 2), R_uniform = (\<lambda>a b k. a)\<rparr>"

text \<open>
  A random module whose first eight calls of \<^verbatim>\<open>triangular\<close> return the middle of
  the range and whose later ones return 4.75, whose \<^verbatim>\<open>random\<close> always returns 0.7
  and whose \<^verbatim>\<open>uniform\<close> returns its lower bound. With ten slots, the variables of
  \<^verbatim>\<open>simulate\<close> after generation 0 and after generation 1 are the two records below.
\<close>

definition early_break :: random_source where
  "early_break =
     \<lparr>R_triangular = (\<lambda>lo hi k. if k < 8 then (lo + hi) / 2 else 19 / 4),
      R_random = (\<lambda>k. 7 / 10),
      R_uniform = (\<lambda>a b k. a)\<rparr>"

definition after_generation_0 :: sim_vars where
  "after_generation_0 =
      \<lparr>v_p =
         [\<lparr>key_s = 5 / 2, key_l = Dead, key_id = 0, key_a = 1\<rparr>,
          \<lparr>key_s = 5 / 2, key_l = Dead, key_id = 1, key_a = 1\<rparr>,
          \<lparr>key_s = 5 / 2, key_l = Dead, key_id = 2, key_a = 1\<rparr>,
          \<lparr>key_s = 5 / 2, key_l = Dead, key_id = 3, key_a = 1\<rparr>,
          \<lparr>key_s = 5 / 2, key_l = Dead, key_id = 4, key_a = 1\<rparr>,
          \<lparr>key_s = 5 / 2, key_l = Dead, key_id = 5, key_a = 1\<rparr>,
          \<lparr>key_s = 5 / 2, key_l = Dead, key_id = 6, key_a = 1\<rparr>,
          \<lparr>key_s = 5 / 2, key_l = Dead, key_id = 7, key_a = 1\<rparr>,
          \<lparr>key_s = 19 / 4, key_l = Alive, key_id = 8, key_a = 1\<rparr>,
          \<lparr>key_s = 19 / 4, key_l = Alive, key_id = 9, key_a = 1\<rparr>],
       v_n = 10, v_fittest = 3 / 4, v_fitid = 8, v_old_env = 4,
       v_oldest = 1, v_oldid = 0, v_oldgen = 0, v_k = 18,
       v_born = [0, 1, 2, 3, 4, 5, 6, 7, 8, 9]\<rparr>"

definition after_generation_1 :: sim_vars where
  "after_generation_1 =
      \<lparr>v_p =
         [\<lparr>key_s = - (363 / 50), key_l = Dead, key_id = 10, key_a = 0\<rparr>,
          \<lparr>key_s = - (363 / 50), key_l = Dead, key_id = 11, key_a = 0\<rparr>,
          \<lparr>key_s = - (363 / 50), key_l = Dead, key_id = 12, key_a = 0\<rparr>,
          \<lparr>key_s = - (363 / 50), key_l = Dead, key_id = 13, key_a = 0\<rparr>,
          \<lparr>key_s = 5 / 2, key_l = Dead, key_id = 4, key_a = 1\<rparr>,
          \<lparr>key_s = 5 / 2, key_l = Dead, key_id = 5, key_a = 1\<rparr>,
          \<lparr>key_s = 5 / 2, key_l = Dead, key_id = 6, key_a = 1\<rparr>,
          \<lparr>key_s = 5 / 2, key_l = Dead, key_id = 7, key_a = 1\<rparr>,
          \<lparr>key_s = 19 / 4, key_l = Alive, key_id = 8, key_a = 1\<rparr>,
          \<lparr>key_s = 19 / 4, key_l = Alive, key_id = 9, key_a = 1\<rparr>],
       v_n = 14, v_fittest = 3 / 4, v_fitid = 8, v_old_env = 4,
       v_oldest = 1, v_oldid = 0, v_oldgen = 0, v_k = 30,
       v_born = [0, 1, 2, 3, 4, 5, 6, 7, 8, 9, 10, 11, 12, 13]\<rparr>"

text \<open>An \<^verbatim>\<open>int\<close> that knows two lines.\<close>

definition int_of_two_lines :: "string \<Rightarrow> int option" where
  "int_of_two_lines line =
     (if line = ''100001'' then Some 100001 else if line = ''51'' then Some 51 else None)"

text \<open>
  Two lists of individuals: two Alive ones of negative power, and an Alive one of power 0
  before an Alive one of power 3.
\<close>

definition below_zero :: "individual list" where
  "below_zero =
     [\<lparr>key_s = - 1, key_l = Alive, key_id = 5, key_a = 2\<rparr>,
      \<lparr>key_s = - 2, key_l = Alive, key_id = 6, key_a = 2\<rparr>]"

definition zero_first :: "individual list" where
  "zero_first =
     [\<lparr>key_s = 0, key_l = Alive, key_id = 0, key_a = 0\<rparr>,
      \<lparr>key_s = 3, key_l = Alive, key_id = 1, key_a = 0\<rparr>]"

text \<open>
  A random module whose first eight calls of \<^verbatim>\<open>triangular\<close> return the middle of
  the range and whose later ones return the lower bound, whose \<^verbatim>\<open>random\<close> returns
  0.7 as long as fewer than eighteen calls were made to the module and 0.5 afterwards, and
  whose \<^verbatim>\<open>uniform\<close> returns its lower bound. With ten slots, the variables of
  \<^verbatim>\<open>simulate\<close> after generation 0 are the record below.
\<close>

definition zero_pair :: random_source where
  "zero_pair =
     \<lparr>R_triangular = (\<lambda>lo hi k. if k < 8 then (lo + hi) / 2 else lo),
      R_random = (\<lambda>k. if k < 18 then 7 / 10 else 1 / 2),
      R_uniform = (\<lambda>a b k. a)\<rparr>"

definition after_zero_pair :: sim_vars where
  "after_zero_pair =
      \<lparr>v_p =
         [\<lparr>key_s = 5 / 2, key_l = Dead, key_id = 0, key_a = 1\<rparr>,
          \<lparr>key_s = 5 / 2, key_l = Dead, key_id = 1, key_a = 1\<rparr>,
          \<lparr>key_s = 5 / 2, key_l = Dead, key_id = 2, key_a = 1\<rparr>,
          \<lparr>key_s = 5 / 2, key_l = Dead, key_id = 3, key_a = 1\<rparr>,
          \<lparr>key_s = 5 / 2, key_l = Dead, key_id = 4, key_a = 1\<rparr>,
          \<lparr>key_s = 5 / 2, key_l = Dead, key_id = 5, key_a = 1\<rparr>,
          \<lparr>key_s = 5 / 2, key_l = Dead, key_id = 6, key_a = 1\<rparr>,
          \<lparr>key_s = 5 / 2, key_l = Dead, key_id = 7, key_a = 1\<rparr>,
          \<lparr>key_s = 0, key_l = Alive, key_id = 8, key_a = 1\<rparr>,
          \<lparr>key_s = 0, key_l = Alive, key_id = 9, key_a = 1\<rparr>],
       v_n = 10, v_fittest = 0, v_fitid = 0, v_old_env = 0,
       v_oldest = 1, v_oldid = 0, v_oldgen = 0, v_k = 50,
       v_born = [0, 1, 2, 3, 4, 5, 6, 7, 8, 9]\<rparr>"

section \<open>Properties\<close>

subsection \<open>The loops return, and keep the length of the list\<close>

lemma initialize_loop_eq:
  "initialize_loop rnd m p n k =
     (p @ map (\<lambda>j. \<lparr>key_s = R_triangular rnd 0 5 (k + j), key_l = Alive, key_id = n + j, key_a = 0\<rparr>) [0..<m],
      n + m, k + m)"
proof (induction m arbitrary: p n k)
  case 0
  then show ?case by simp
next
  case (Suc m)
  have "[0..<Suc m] = 0 # map Suc [0..<m]"
    by (simp add: upt_conv_Cons map_Suc_upt del: upt_Suc)
  then show ?case
    by (simp add: Suc.IH comp_def del: upt_Suc)
qed

lemma initialize_eq:
  "initialize rnd pop k =
     (map (\<lambda>j. \<lparr>key_s = R_triangular rnd 0 5 (k + j), key_l = Alive, key_id = j, key_a = 0\<rparr>) [0..<pop],
      pop, k + pop)"
  by (simp add: initialize_def initialize_loop_eq)

lemma parent_power_loop_ok:
  "pop \<le> length p \<Longrightarrow> \<exists>r. parent_power_loop p pop i sm count = Inr r"
proof (induction p pop i sm count rule: parent_power_loop.induct)
  case (1 p pop i sm count)
  then show ?case
    by (subst parent_power_loop.simps) auto
qed

lemma respawn_loop_length:
  "pop \<le> length p \<Longrightarrow>
   \<exists>p' n' new' k' born'. respawn_loop rnd avg mut pop i p n new k born = Inr (p', n', new', k', born')
      \<and> length p' = length p"
proof (induction rnd avg mut pop i p n new k born rule: respawn_loop.induct)
  case (1 rnd avg mut pop i p n new k born)
  show ?case
  proof (cases "i < pop \<and> new \<noteq> 0")
    case False
    then show ?thesis by (subst respawn_loop.simps) auto
  next
    case True
    with "1.prems" have il: "i < length p" by simp
    show ?thesis
    proof (cases "key_l (p ! i) = Dead")
      case d: True
      from "1.IH"(1) [OF _ _ il d] True "1.prems" il d show ?thesis
        by (subst respawn_loop.simps) auto
    next
      case d: False
      from "1.IH"(2) [OF _ _ il d] True "1.prems" il d show ?thesis
        by (subst respawn_loop.simps) auto
    qed
  qed
qed

lemma pressure_loop_length:
  "pop \<le> length p \<Longrightarrow>
   \<exists>p' k'. pressure_loop rnd p pr pop i k = Inr (p', k') \<and> length p' = length p"
proof (induction rnd p pr pop i k rule: pressure_loop.induct)
  case (1 rnd p pr pop i k)
  show ?case
  proof (cases "i < pop")
    case False
    then show ?thesis by (subst pressure_loop.simps) auto
  next
    case True
    with "1.prems" have il: "i < length p" by simp
    show ?thesis
    proof (cases "truthy (fst (kill rnd (pr - key_s (p ! i)) k))")
      case d: True
      from "1.IH"(1) [OF True il d] True "1.prems" il d show ?thesis
        by (subst pressure_loop.simps) auto
    next
      case d: False
      from "1.IH"(2) [OF True il d] True "1.prems" il d show ?thesis
        by (subst pressure_loop.simps) auto
    qed
  qed
qed

subsection \<open>The death test\<close>

lemma kill_loop_fst:
  "fst (kill_loop rnd m k) = Some (\<exists>j<m. R_random rnd (k + j) > 0.6)"
proof (induction m arbitrary: k)
  case 0
  then show ?case by simp
next
  case (Suc m)
  show ?case
  proof (cases "R_random rnd k > 0.6")
    case True
    then have "\<exists>j<Suc m. R_random rnd (k + j) > 0.6" by (intro exI [of _ 0]) simp
    with True show ?thesis by simp
  next
    case False
    have "(\<exists>j<Suc m. R_random rnd (k + j) > 0.6) = (\<exists>j<m. R_random rnd (Suc k + j) > 0.6)"
      using False by (auto simp: less_Suc_eq_0_disj)
    with False Suc [of "Suc k"] show ?thesis by simp
  qed
qed

text \<open>
  Claim C2. For a deficit \<open>f \<le> 0\<close>, \<^verbatim>\<open>kill\<close> draws nothing and returns
  \<^verbatim>\<open>None\<close>, which is falsy. For \<open>0 < f < 1\<close> it draws nothing and returns
  \<^verbatim>\<open>False\<close>. For every \<open>f > 0\<close> it returns \<^verbatim>\<open>True\<close> exactly when one of the
  next \<open>\<lfloor>f\<rfloor>\<^sup>2\<close> values of \<^verbatim>\<open>R.random()\<close> is greater than 0.6, and
  \<^verbatim>\<open>False\<close> otherwise.
\<close>

theorem kill_result:
  "(f \<le> 0 \<longrightarrow> kill rnd f k = (None, k) \<and> \<not> truthy (fst (kill rnd f k))) \<and>
   (0 < f \<and> f < 1 \<longrightarrow> kill rnd f k = (Some False, k)) \<and>
   (0 < f \<longrightarrow> fst (kill rnd f k) = Some (\<exists>j < nat (\<lfloor>f\<rfloor> ^ 2). R_random rnd (k + j) > 0.6))"
proof (intro conjI impI)
  assume "f \<le> 0"
  then show "kill rnd f k = (None, k)" by (simp add: kill_def)
  then show "\<not> truthy (fst (kill rnd f k))" by simp
next
  assume "0 < f \<and> f < 1"
  then have "\<lfloor>f\<rfloor> = 0" by (simp add: floor_eq_iff)
  with \<open>0 < f \<and> f < 1\<close> show "kill rnd f k = (Some False, k)"
    by (simp add: kill_def int_of_float_def)
next
  assume "0 < f"
  then show "fst (kill rnd f k) = Some (\<exists>j < nat (\<lfloor>f\<rfloor> ^ 2). R_random rnd (k + j) > 0.6)"
    by (simp add: kill_def int_of_float_def kill_loop_fst)
qed

theorem kill_result_witness:
  "(- 1 :: real) \<le> 0 \<and> kill second_draw_high (- 1) 0 = (None, 0) \<and>
   (0 :: real) < 1 / 2 \<and> (1 / 2 :: real) < 1 \<and> kill second_draw_high (1 / 2) 0 = (Some False, 0) \<and>
   (0 :: real) < 5 / 2 \<and> fst (kill second_draw_high (5 / 2) 0) = Some True \<and>
   fst (kill second_draw_high (5 / 2) 2) = Some False"
proof -
  have a: "\<exists>j < nat (\<lfloor>5 / 2 :: real\<rfloor> ^ 2). R_random second_draw_high (0 + j) > 0.6"
    by (intro exI [of _ 1]) (simp add: second_draw_high_def)
  have b: "\<not> (\<exists>j < nat (\<lfloor>5 / 2 :: real\<rfloor> ^ 2). R_random second_draw_high (2 + j) > 0.6)"
    by (simp add: second_draw_high_def)
  show ?thesis
    using kill_result [of "- 1" second_draw_high 0] kill_result [of "1 / 2" second_draw_high 0]
      kill_result [of "5 / 2" second_draw_high 0] kill_result [of "5 / 2" second_draw_high 2] a b
    by simp
qed

subsection \<open>The pressure routine\<close>

lemma pressure_loop_frame:
  "pressure_loop rnd p pr pop i k = Inr (p', k') \<Longrightarrow>
   length p' = length p \<and>
   (\<forall>j<length p. p' ! j = p ! j \<or> (i \<le> j \<and> j < pop \<and> p' ! j = (p ! j)\<lparr>key_l := Dead\<rparr>))"
proof (induction rnd p pr pop i k rule: pressure_loop.induct)
  case (1 rnd p pr pop i k)
  show ?case
  proof (cases "i < pop")
    case False
    with "1.prems" show ?thesis by (subst (asm) pressure_loop.simps) auto
  next
    case True
    show ?thesis
    proof (cases "i < length p")
      case False
      with True "1.prems" show ?thesis by (subst (asm) pressure_loop.simps) auto
    next
      case il: True
      show ?thesis
      proof (cases "truthy (fst (kill rnd (pr - key_s (p ! i)) k))")
        case d: True
        from "1.prems" True il d
        have "pressure_loop rnd (p[i := (p ! i)\<lparr>key_l := Dead\<rparr>]) pr pop (Suc i)
                (snd (kill rnd (pr - key_s (p ! i)) k)) = Inr (p', k')"
          by (subst (asm) pressure_loop.simps) simp
        from "1.IH"(1) [OF True il d this]
        have len: "length p' = length p"
          and fr: "\<forall>j<length p. p' ! j = (p[i := (p ! i)\<lparr>key_l := Dead\<rparr>]) ! j \<or>
                 (Suc i \<le> j \<and> j < pop \<and> p' ! j = ((p[i := (p ! i)\<lparr>key_l := Dead\<rparr>]) ! j)\<lparr>key_l := Dead\<rparr>)"
          by simp_all
        have "p' ! j = p ! j \<or> (i \<le> j \<and> j < pop \<and> p' ! j = (p ! j)\<lparr>key_l := Dead\<rparr>)"
          if "j < length p" for j
        proof (cases "j = i")
          case True
          with fr that \<open>i < pop\<close> show ?thesis by auto
        next
          case False
          with fr that show ?thesis by auto
        qed
        with len show ?thesis by simp
      next
        case d: False
        from "1.prems" True il d
        have "pressure_loop rnd p pr pop (Suc i)
                (snd (kill rnd (pr - key_s (p ! i)) k)) = Inr (p', k')"
          by (subst (asm) pressure_loop.simps) simp
        from "1.IH"(2) [OF True il d this] True il show ?thesis
          by auto
      qed
    qed
  qed
qed

lemma pressure_frame:
  "pressure rnd p gen pop k = Inr (p', env, k') \<Longrightarrow>
   length p' = length p \<and>
   (\<forall>j<length p. p' ! j = p ! j \<or> (j < pop \<and> p' ! j = (p ! j)\<lparr>key_l := Dead\<rparr>))"
  by (auto simp: pressure_def split: sum.splits dest!: pressure_loop_frame)

lemma pressure_ok:
  "pop \<le> length p \<Longrightarrow> \<exists>p' env k'. pressure rnd p gen pop k = Inr (p', env, k')"
  using pressure_loop_length [of pop p rnd "(real gen + 5) * (0.8 + real gen / 200)" 0 k]
  by (auto simp: pressure_def)

text \<open>
  Claim C10. \<^verbatim>\<open>pressure\<close> returns whenever the list has at least \<^verbatim>\<open>pop\<close> slots,
  and whenever it returns, the list has its length, every slot has its power, id and age,
  every Dead slot is still Dead, and a slot that changed differs from what it was only in
  its status, now Dead. The test runs on Dead slots too: in the example that follows the
  Dead slot takes the first draw and the Alive slot dies of the second.
\<close>

theorem pressure_only_kills:
  "(pop \<le> length p \<longrightarrow> (\<exists>p' env k'. pressure rnd p gen pop k = Inr (p', env, k'))) \<and>
   (\<forall>p' env k'. pressure rnd p gen pop k = Inr (p', env, k') \<longrightarrow>
      length p' = length p \<and>
      (\<forall>j<length p.
         key_s (p' ! j) = key_s (p ! j) \<and> key_id (p' ! j) = key_id (p ! j) \<and>
         key_a (p' ! j) = key_a (p ! j) \<and>
         (key_l (p ! j) = Dead \<longrightarrow> key_l (p' ! j) = Dead) \<and>
         (p' ! j = p ! j \<or> p' ! j = (p ! j)\<lparr>key_l := Dead\<rparr>)))"
proof (intro conjI impI allI)
  assume "pop \<le> length p"
  then show "\<exists>p' env k'. pressure rnd p gen pop k = Inr (p', env, k')"
    by (rule pressure_ok)
next
  fix p' env k'
  assume r: "pressure rnd p gen pop k = Inr (p', env, k')"
  from pressure_frame [OF r] show "length p' = length p" by simp
  fix j
  assume "j < length p"
  with pressure_frame [OF r]
  have c: "p' ! j = p ! j \<or> p' ! j = (p ! j)\<lparr>key_l := Dead\<rparr>" by blast
  then show "key_s (p' ! j) = key_s (p ! j)" by auto
  from c show "key_id (p' ! j) = key_id (p ! j)" by auto
  from c show "key_a (p' ! j) = key_a (p ! j)" by auto
  from c show "p' ! j = p ! j \<or> p' ! j = (p ! j)\<lparr>key_l := Dead\<rparr>" .
  assume "key_l (p ! j) = Dead"
  with c show "key_l (p' ! j) = Dead" by auto
qed

theorem pressure_only_kills_witness:
  "2 \<le> length dead_then_alive \<and>
   pressure second_draw_high dead_then_alive 0 2 0 =
     Inr ([\<lparr>key_s = 5 / 2, key_l = Dead, key_id = 0, key_a = 1\<rparr>,
           \<lparr>key_s = 5 / 2, key_l = Dead, key_id = 1, key_a = 1\<rparr>], 4, 2) \<and>
   key_l (dead_then_alive ! 0) = Dead \<and> key_l (dead_then_alive ! 1) = Alive \<and>
   (\<exists>p' env k'. pressure second_draw_high dead_then_alive 0 2 0 = Inr (p', env, k') \<and>
      length p' = length dead_then_alive \<and>
      (\<forall>j<length dead_then_alive.
         key_s (p' ! j) = key_s (dead_then_alive ! j) \<and>
         key_id (p' ! j) = key_id (dead_then_alive ! j) \<and>
         key_a (p' ! j) = key_a (dead_then_alive ! j) \<and>
         (p' ! j = dead_then_alive ! j \<or> p' ! j = (dead_then_alive ! j)\<lparr>key_l := Dead\<rparr>)))"
proof -
  have ev: "pressure second_draw_high dead_then_alive 0 2 0 =
    Inr ([\<lparr>key_s = 5 / 2, key_l = Dead, key_id = 0, key_a = 1\<rparr>,
          \<lparr>key_s = 5 / 2, key_l = Dead, key_id = 1, key_a = 1\<rparr>], 4, 2)"
    by (simp add: pressure_def pressure_loop.simps kill_def int_of_float_def
        dead_then_alive_def second_draw_high_def eval_nat_numeral)
  have len: "2 \<le> length dead_then_alive" and st: "key_l (dead_then_alive ! 0) = Dead"
    "key_l (dead_then_alive ! 1) = Alive"
    by (simp_all add: dead_then_alive_def)
  from pressure_only_kills [of 2 dead_then_alive second_draw_high 0 0] ev len st
  show ?thesis by blast
qed

subsection \<open>The respawn loop\<close>

lemma respawn_dead:
  "i < pop \<Longrightarrow> new \<noteq> 0 \<Longrightarrow> i < length p \<Longrightarrow> key_l (p ! i) = Dead \<Longrightarrow>
   respawn_loop rnd avg mut pop i p n new k born =
   respawn_loop rnd avg mut pop (Suc i)
     (p[i := \<lparr>key_s = avg + R_uniform rnd (- 1 * mut) mut k, key_l = Alive, key_id = n, key_a = 0\<rparr>])
     (n + 1) (new - 1) (Suc k) (born @ [n])"
  by (subst respawn_loop.simps) simp

lemma respawn_alive:
  "i < pop \<Longrightarrow> new \<noteq> 0 \<Longrightarrow> i < length p \<Longrightarrow> key_l (p ! i) \<noteq> Dead \<Longrightarrow>
   respawn_loop rnd avg mut pop i p n new k born =
   respawn_loop rnd avg mut pop (Suc i)
     (p[i := (p ! i)\<lparr>key_a := key_a (p ! i) + 1\<rparr>]) n new k born"
  by (subst respawn_loop.simps) simp

lemma respawn_stop:
  "\<not> (i < pop \<and> new \<noteq> 0) \<Longrightarrow>
   respawn_loop rnd avg mut pop i p n new k born = Inr (p, n, new, k, born)"
  by (subst respawn_loop.simps) auto

lemma respawn_error:
  "i < pop \<Longrightarrow> new \<noteq> 0 \<Longrightarrow> \<not> i < length p \<Longrightarrow>
   respawn_loop rnd avg mut pop i p n new k born = Inl IndexError"
  by (subst respawn_loop.simps) simp

lemma respawn_loop_ids:
  "respawn_loop rnd avg mut pop i p n new k born = Inr (p', n', new', k', born') \<Longrightarrow>
   (\<forall>x\<in>set p. key_id x < n) \<Longrightarrow> distinct (map key_id p) \<Longrightarrow> born = [0..<n] \<Longrightarrow>
   (\<forall>x\<in>set p'. key_id x < n') \<and> distinct (map key_id p') \<and> born' = [0..<n'] \<and> n \<le> n'"
proof (induction rnd avg mut pop i p n new k born rule: respawn_loop.induct)
  case (1 rnd avg mut pop i p n new k born)
  show ?case
  proof (cases "i < pop \<and> new \<noteq> 0")
    case False
    then have "respawn_loop rnd avg mut pop i p n new k born = Inr (p, n, new, k, born)"
      by (rule respawn_stop)
    with "1.prems" show ?thesis by simp
  next
    case True
    show ?thesis
    proof (cases "i < length p")
      case False
      with True have "respawn_loop rnd avg mut pop i p n new k born = Inl IndexError"
        by (simp add: respawn_error)
      with "1.prems"(1) show ?thesis by simp
    next
      case il: True
      show ?thesis
      proof (cases "key_l (p ! i) = Dead")
        case d: True
        let ?nb = "\<lparr>key_s = avg + R_uniform rnd (- 1 * mut) mut k, key_l = Alive,
                            key_id = n, key_a = 0\<rparr>"
        from True il d
        have eq: "respawn_loop rnd avg mut pop i p n new k born =
              respawn_loop rnd avg mut pop (Suc i) (p[i := ?nb]) (n + 1) (new - 1) (Suc k) (born @ [n])"
          by (intro respawn_dead) simp_all
        have r: "respawn_loop rnd avg mut pop (Suc i) (p[i := ?nb]) (n + 1) (new - 1) (Suc k) (born @ [n])
                  = Inr (p', n', new', k', born')"
          by (rule trans [OF eq [symmetric] "1.prems"(1)])
        have a: "\<forall>x\<in>set (p[i := ?nb]). key_id x < n + 1"
        proof
          fix x assume "x \<in> set (p[i := ?nb])"
          then have "x \<in> insert ?nb (set p)"
            by (rule subsetD [OF set_update_subset_insert])
          then have "x = ?nb \<or> x \<in> set p" by simp
          then show "key_id x < n + 1"
          proof
            assume "x = ?nb"
            then show ?thesis by simp
          next
            assume "x \<in> set p"
            with "1.prems"(2) have "key_id x < n" by blast
            then show ?thesis by simp
          qed
        qed
        have "n \<notin> set (map key_id p)" using "1.prems"(2) by auto
        then have b: "distinct (map key_id (p[i := ?nb]))"
          using "1.prems"(3) by (simp add: map_update distinct_list_update)
        have c: "born @ [n] = [0..<n + 1]" using "1.prems"(4) by simp
        from "1.IH"(1) [OF _ _ il d r a b c] True show ?thesis by simp
      next
        case d: False
        let ?ag = "(p ! i)\<lparr>key_a := key_a (p ! i) + 1\<rparr>"
        from True il d
        have eq: "respawn_loop rnd avg mut pop i p n new k born =
              respawn_loop rnd avg mut pop (Suc i) (p[i := ?ag]) n new k born"
          by (intro respawn_alive) simp_all
        have r: "respawn_loop rnd avg mut pop (Suc i) (p[i := ?ag]) n new k born
                  = Inr (p', n', new', k', born')"
          by (rule trans [OF eq [symmetric] "1.prems"(1)])
        have m: "map key_id (p[i := ?ag]) = map key_id p"
          using il by (simp add: map_update list_update_same_conv)
        have a: "\<forall>x\<in>set (p[i := ?ag]). key_id x < n"
        proof
          fix x assume "x \<in> set (p[i := ?ag])"
          then have "key_id x \<in> set (map key_id (p[i := ?ag]))" by simp
          with m "1.prems"(2) show "key_id x < n" by auto
        qed
        from m "1.prems"(3) have b: "distinct (map key_id (p[i := ?ag]))" by simp
        from "1.IH"(2) [OF _ _ il d r a b "1.prems"(4)] True show ?thesis by simp
      qed
    qed
  qed
qed

subsection \<open>One generation keeps the invariant\<close>

lemma parent_power_ok:
  "pop \<le> length p \<Longrightarrow> \<exists>avg count. parent_power p pop = Inr (avg, count)"
  using parent_power_loop_ok [of pop p 0 0 0]
  by (auto simp: parent_power_def split: prod.splits)

lemma parent_power_zero:
  "parent_power p pop = Inr (avg, count) \<Longrightarrow> count = 0 \<Longrightarrow> avg = 0"
  by (auto simp: parent_power_def split: sum.splits prod.splits if_splits)

lemma pressure_ids:
  assumes "pressure rnd p gen pop k = Inr (p', env, k')"
  shows "map key_id p' = map key_id p"
proof (rule nth_equalityI)
  from pressure_frame [OF assms] show "length (map key_id p') = length (map key_id p)" by simp
next
  fix j assume "j < length (map key_id p')"
  with pressure_frame [OF assms] have j: "j < length p" "j < length p'" by simp_all
  with pressure_frame [OF assms]
  have "p' ! j = p ! j \<or> p' ! j = (p ! j)\<lparr>key_l := Dead\<rparr>" by blast
  then have "key_id (p' ! j) = key_id (p ! j)" by auto
  with j show "map key_id p' ! j = map key_id p ! j" by simp
qed

lemma ids_below_cong:
  assumes "map key_id p' = map key_id p" and "\<forall>x\<in>set p. key_id x < n"
  shows "\<forall>x\<in>set p'. key_id x < (n::nat)"
proof
  fix x assume "x \<in> set p'"
  then have "key_id x \<in> set (map key_id p')" by simp
  with assms(1) have "key_id x \<in> key_id ` set p" by simp
  then obtain y where "y \<in> set p" "key_id x = key_id y" by auto
  with assms(2) show "key_id x < n" by simp
qed

lemma generation_inv:
  assumes inv: "run_inv pop v"
  shows "\<exists>s. generation rnd pop gen v = Inr s \<and>
           (case s of Return v' \<Rightarrow> v' = v
            | Continue v' \<Rightarrow> run_inv pop v' \<and> v_n v \<le> v_n v')"
proof -
  from inv have len: "length (v_p v) = pop" by (simp add: run_inv_def)
  then obtain avg count where pp: "parent_power (v_p v) pop = Inr (avg, count)"
    using parent_power_ok [of pop "v_p v"] by auto
  show ?thesis
  proof (cases "avg = 0 \<or> count = 1")
    case True
    with pp show ?thesis by (simp add: generation_def)
  next
    case False
    with pp have c0: "count \<noteq> 0" using parent_power_zero by blast
    obtain strong sid old oid where pl: "print_living (v_p v) pop = (strong, sid, old, oid)"
      by (cases "print_living (v_p v) pop")
    from c0 have dv: "py_div 6 (real count) = Inr (6 / real count)" by (simp add: py_div_def)
    let ?mut = "real gen / 100 + 3 + (6 / real count) ^ 2"
    from respawn_loop_length [of pop "v_p v" rnd avg ?mut 0 "v_n v" "count * 2" "v_k v" "v_born v"] len
    obtain p1 n1 new1 k1 born1 where
      rs: "respawn_loop rnd avg ?mut pop 0 (v_p v) (v_n v) (count * 2) (v_k v) (v_born v)
             = Inr (p1, n1, new1, k1, born1)" and l1: "length p1 = pop"
      by auto
    from inv have "\<forall>x\<in>set (v_p v). key_id x < v_n v" "distinct (map key_id (v_p v))"
      "v_born v = [0..<v_n v]" by (simp_all add: run_inv_def)
    from respawn_loop_ids [OF rs this]
    have i1: "\<forall>x\<in>set p1. key_id x < n1" "distinct (map key_id p1)" "born1 = [0..<n1]" "v_n v \<le> n1"
      by simp_all
    from pressure_ok [of pop p1 rnd gen k1] l1
    obtain p2 env k2 where pr: "pressure rnd p1 gen pop k1 = Inr (p2, env, k2)" by auto
    from pressure_frame [OF pr] l1 have l2: "length p2 = pop" by simp
    from pressure_ids [OF pr] i1(1) have i2: "\<forall>x\<in>set p2. key_id x < n1"
      by (rule ids_below_cong)
    from pressure_ids [OF pr] i1(2) have d2: "distinct (map key_id p2)" by simp
    from False pp pl dv rs pr l2 i2 d2 i1 show ?thesis
      by (simp add: generation_def run_inv_def)
  qed
qed

subsection \<open>The whole run keeps the invariant\<close>

lemma simulate_loop_inv:
  "run_inv pop v \<Longrightarrow> 0 < generations \<Longrightarrow>
   \<exists>out g v'. simulate_loop rnd pop generations gen v = Inr (out, g, v') \<and>
      run_inv pop v' \<and> v_n v \<le> v_n v' \<and> g < generations"
proof (induction rnd pop generations gen v rule: simulate_loop.induct)
  case (1 rnd pop generations gen v)
  show ?case
  proof (cases "gen < generations")
    case False
    with "1.prems" show ?thesis by (subst simulate_loop.simps) simp
  next
    case True
    from generation_inv [OF "1.prems"(1), of rnd gen]
    obtain s where g: "generation rnd pop gen v = Inr s"
      and s: "case s of Return v' \<Rightarrow> v' = v | Continue v' \<Rightarrow> run_inv pop v' \<and> v_n v \<le> v_n v'"
      by blast
    show ?thesis
    proof (cases s)
      case (Return v')
      with g s True "1.prems" show ?thesis by (subst simulate_loop.simps) simp
    next
      case (Continue v')
      with s have i: "run_inv pop v'" and m: "v_n v \<le> v_n v'" by simp_all
      from "1.IH" [OF True g Continue i "1.prems"(2)]
      obtain out g' v'' where "simulate_loop rnd pop generations (Suc gen) v' = Inr (out, g', v'')"
        "run_inv pop v''" "v_n v' \<le> v_n v''" "g' < generations" by blast
      with g Continue True m show ?thesis by (subst simulate_loop.simps) simp
    qed
  qed
qed

lemma simulate_loop_no_generation:
  "simulate_loop rnd pop 0 gen v = Inl UnboundLocalError"
  by (subst simulate_loop.simps) simp

lemma initialize_inv:
  "initialize rnd pop 0 = (p, n, k) \<Longrightarrow>
   run_inv pop \<lparr>v_p = p, v_n = n, v_fittest = 0, v_fitid = 0, v_old_env = 0, v_oldest = 0,
             v_oldid = 0, v_oldgen = 0, v_k = k, v_born = map key_id p\<rparr> \<and> n = pop"
  by (auto simp: initialize_eq run_inv_def comp_def distinct_map inj_on_def)

lemma simulate_inv:
  assumes "0 < generations"
  shows "\<exists>out g v. simulate rnd pop generations = Inr (out, g, v) \<and> run_inv pop v \<and>
           pop \<le> v_n v \<and> g < generations"
proof -
  obtain p n k where i: "initialize rnd pop 0 = (p, n, k)" by (cases "initialize rnd pop 0")
  from initialize_inv [OF i] simulate_loop_inv [OF _ assms, of pop _ rnd 0] i
  show ?thesis by (fastforce simp: simulate_def)
qed

subsection \<open>The loops raise nothing but IndexError\<close>

lemma parent_power_loop_error:
  "parent_power_loop p pop i sm count = Inl e \<Longrightarrow> e = IndexError"
proof (induction p pop i sm count rule: parent_power_loop.induct)
  case (1 p pop i sm count)
  from "1.prems" have u:
    "(if i < pop then
        (if i < length p then
           (if key_l (p ! i) = Alive
            then parent_power_loop p pop (Suc i) (sm + key_s (p ! i)) (count + 1)
            else parent_power_loop p pop (Suc i) sm count)
         else Inl IndexError)
      else Inr (sm, count)) = Inl e"
    by (subst (asm) parent_power_loop.simps)
  show ?case
  proof (cases "i < pop \<and> i < length p")
    case False
    with u show ?thesis by (auto split: if_splits)
  next
    case True
    show ?thesis
    proof (cases "key_l (p ! i) = Alive")
      case a: True
      with u True have "parent_power_loop p pop (Suc i) (sm + key_s (p ! i)) (count + 1) = Inl e"
        by simp
      with "1.IH"(1) True a show ?thesis by blast
    next
      case a: False
      with u True have "parent_power_loop p pop (Suc i) sm count = Inl e"
        by simp
      with "1.IH"(2) True a show ?thesis by blast
    qed
  qed
qed

lemma parent_power_error: "parent_power p pop = Inl e \<Longrightarrow> e = IndexError"
  by (auto simp: parent_power_def split: sum.splits prod.splits if_splits
           dest: parent_power_loop_error)

lemma respawn_loop_error:
  "respawn_loop rnd avg mut pop i p n new k born = Inl e \<Longrightarrow> e = IndexError"
proof (induction rnd avg mut pop i p n new k born rule: respawn_loop.induct)
  case (1 rnd avg mut pop i p n new k born)
  show ?case
  proof (cases "i < pop \<and> new \<noteq> 0")
    case False
    with "1.prems" show ?thesis by (simp add: respawn_stop)
  next
    case True
    show ?thesis
    proof (cases "i < length p")
      case False
      with True "1.prems" show ?thesis by (simp add: respawn_error)
    next
      case il: True
      show ?thesis
      proof (cases "key_l (p ! i) = Dead")
        case d: True
        with True il "1.prems" "1.IH"(1) show ?thesis by (simp add: respawn_dead)
      next
        case d: False
        with True il "1.prems" "1.IH"(2) show ?thesis by (simp add: respawn_alive)
      qed
    qed
  qed
qed

lemma pressure_loop_error:
  "pressure_loop rnd p pr pop i k = Inl e \<Longrightarrow> e = IndexError"
proof (induction rnd p pr pop i k rule: pressure_loop.induct)
  case (1 rnd p pr pop i k)
  show ?case
  proof (cases "i < pop \<and> i < length p")
    case False
    with "1.prems" show ?thesis
      by (subst (asm) pressure_loop.simps) (auto split: if_splits)
  next
    case True
    show ?thesis
    proof (cases "truthy (fst (kill rnd (pr - key_s (p ! i)) k))")
      case d: True
      with "1.prems" True
      have "pressure_loop rnd (p[i := (p ! i)\<lparr>key_l := Dead\<rparr>]) pr pop (Suc i)
                (snd (kill rnd (pr - key_s (p ! i)) k)) = Inl e"
        by (subst (asm) pressure_loop.simps) simp
      with "1.IH"(1) True d show ?thesis by blast
    next
      case d: False
      with "1.prems" True
      have "pressure_loop rnd p pr pop (Suc i)
                (snd (kill rnd (pr - key_s (p ! i)) k)) = Inl e"
        by (subst (asm) pressure_loop.simps) simp
      with "1.IH"(2) True d show ?thesis by blast
    qed
  qed
qed

lemma pressure_error: "pressure rnd p gen pop k = Inl e \<Longrightarrow> e = IndexError"
  by (auto simp: pressure_def split: sum.splits dest: pressure_loop_error)

lemma generation_error:
  assumes "generation rnd pop gen v = Inl e"
  shows "e = IndexError"
proof (cases "parent_power (v_p v) pop")
  case (Inl e')
  with assms parent_power_error [OF Inl] show ?thesis by (simp add: generation_def)
next
  case (Inr r)
  obtain avg count where r: "r = (avg, count)" by (cases r)
  obtain strong sid old oid where pl: "print_living (v_p v) pop = (strong, sid, old, oid)"
    by (cases "print_living (v_p v) pop")
  show ?thesis
  proof (cases "avg = 0 \<or> count = 1")
    case True
    with assms Inr r show ?thesis by (simp add: generation_def)
  next
    case False
    with Inr r have "count \<noteq> 0" using parent_power_zero by blast
    then have dv: "py_div 6 (real count) = Inr (6 / real count)" by (simp add: py_div_def)
    let ?mut = "real gen / 100 + 3 + (6 / real count) ^ 2"
    show ?thesis
    proof (cases "respawn_loop rnd avg ?mut pop 0 (v_p v) (v_n v) (count * 2) (v_k v) (v_born v)")
      case (Inl e')
      with assms Inr r False pl dv respawn_loop_error [OF Inl] show ?thesis
        by (simp add: generation_def)
    next
      case rs: (Inr q)
      obtain p1 n1 new1 k1 born1 where q: "q = (p1, n1, new1, k1, born1)" by (cases q)
      show ?thesis
      proof (cases "pressure rnd p1 gen pop k1")
        case (Inl e')
        with assms Inr r False pl dv rs q pressure_error [OF Inl] show ?thesis
          by (simp add: generation_def)
      next
        case pr: (Inr w)
        with assms Inr r False pl dv rs q show ?thesis
          by (simp add: generation_def split: prod.splits)
      qed
    qed
  qed
qed

lemma simulate_loop_error:
  "simulate_loop rnd pop generations gen v = Inl e \<Longrightarrow> e = IndexError \<or> e = UnboundLocalError"
proof (induction rnd pop generations gen v rule: simulate_loop.induct)
  case (1 rnd pop generations gen v)
  show ?case
  proof (cases "gen < generations")
    case False
    with "1.prems" show ?thesis
      by (subst (asm) simulate_loop.simps) (auto split: if_splits)
  next
    case True
    show ?thesis
    proof (cases "generation rnd pop gen v")
      case (Inl e')
      with True "1.prems" generation_error [OF Inl] show ?thesis
        by (subst (asm) simulate_loop.simps) simp
    next
      case (Inr s)
      show ?thesis
      proof (cases s)
        case (Return v')
        with Inr True "1.prems" show ?thesis
          by (subst (asm) simulate_loop.simps) simp
      next
        case (Continue v')
        with Inr True "1.prems"
        have "simulate_loop rnd pop generations (Suc gen) v' = Inl e"
          by (subst (asm) simulate_loop.simps) simp
        from "1.IH" [OF True Inr Continue this] show ?thesis .
      qed
    qed
  qed
qed

subsection \<open>What the respawn loop leaves in each slot\<close>

lemma dead_between_self: "dead_between p i i = 0"
  by (simp add: dead_between_def)

lemma dead_between_first:
  "i < j \<Longrightarrow> dead_between p i j = (if key_l (p ! i) = Dead then 1 else 0) + dead_between p (Suc i) j"
  by (simp add: dead_between_def upt_conv_Cons)

lemma dead_between_update: "t < i \<Longrightarrow> dead_between (p[t := x]) i j = dead_between p i j"
proof -
  assume "t < i"
  then have "filter (\<lambda>s. key_l (p[t := x] ! s) = Dead) [i..<j] = filter (\<lambda>s. key_l (p ! s) = Dead) [i..<j]"
    by (intro filter_cong) auto
  then show ?thesis by (simp add: dead_between_def)
qed

lemma upt_first: "[n..<n + (1 + m)] = n # [n + 1..<n + 1 + m]"
  by (simp add: upt_conv_Cons del: upt_Suc)

lemma respawn_loop_slots:
  "pop \<le> length p \<Longrightarrow> i \<le> pop \<Longrightarrow>
   \<exists>p'. respawn_loop rnd avg mut pop i p n new k born =
           Inr (p', n + min new (dead_between p i pop), new - min new (dead_between p i pop),
                k + min new (dead_between p i pop),
                born @ [n..<n + min new (dead_between p i pop)]) \<and>
         length p' = length p \<and>
         (\<forall>j<length p. p' ! j = respawned rnd avg mut pop i p n new k j)"
proof (induction rnd avg mut pop i p n new k born rule: respawn_loop.induct)
  case (1 rnd avg mut pop i p n new k born)
  show ?case
  proof (cases "i < pop \<and> new \<noteq> 0")
    case False
    then have r: "respawn_loop rnd avg mut pop i p n new k born = Inr (p, n, new, k, born)"
      by (rule respawn_stop)
    from False "1.prems" have "i = pop \<or> new = 0" by auto
    then have m: "min new (dead_between p i pop) = 0"
      by (auto simp: dead_between_self)
    from False "1.prems" have "\<forall>j<length p. p ! j = respawned rnd avg mut pop i p n new k j"
      by (auto simp: respawned_def)
    with r m show ?thesis by simp
  next
    case True
    with "1.prems" have il: "i < length p" and ip: "i < pop" and nz: "new \<noteq> 0" by simp_all
    show ?thesis
    proof (cases "key_l (p ! i) = Dead")
      case d: True
      let ?p1 = "p[i := \<lparr>key_s = avg + R_uniform rnd (- 1 * mut) mut k, key_l = Alive, key_id = n, key_a = 0\<rparr>]"
      let ?m1 = "min (new - 1) (dead_between ?p1 (Suc i) pop)"
      have eq: "respawn_loop rnd avg mut pop i p n new k born =
            respawn_loop rnd avg mut pop (Suc i) ?p1 (n + 1) (new - 1) (Suc k) (born @ [n])"
        using ip nz il d by (rule respawn_dead)
      from "1.prems" ip have "pop \<le> length ?p1" "Suc i \<le> pop" by simp_all
      from "1.IH"(1) [OF ip nz il d this]
      obtain p' where
        r: "respawn_loop rnd avg mut pop (Suc i) ?p1 (n + 1) (new - 1) (Suc k) (born @ [n]) =
              Inr (p', n + 1 + ?m1, new - 1 - ?m1, Suc k + ?m1, (born @ [n]) @ [n + 1..<n + 1 + ?m1])"
        and len: "length p' = length ?p1"
        and sl: "\<forall>j<length ?p1. p' ! j = respawned rnd avg mut pop (Suc i) ?p1 (n + 1) (new - 1) (Suc k) j"
        by blast
      have db: "dead_between ?p1 (Suc i) j = dead_between p (Suc i) j" for j
        by (rule dead_between_update) simp
      have df: "dead_between p i j = 1 + dead_between p (Suc i) j" if "i < j" for j
        using that d by (simp add: dead_between_first)
      have m: "min new (dead_between p i pop) = 1 + ?m1"
        using nz db [of pop] df [OF ip] by (simp only: min_def) arith
      have b: "(born @ [n]) @ [n + 1..<n + 1 + ?m1] = born @ [n..<n + (1 + ?m1)]"
        by (simp only: upt_first append_assoc append_Cons append_Nil)
      have s: "p' ! j = respawned rnd avg mut pop i p n new k j" if j: "j < length p" for j
      proof -
        from sl j have pj: "p' ! j = respawned rnd avg mut pop (Suc i) ?p1 (n + 1) (new - 1) (Suc k) j"
          by simp
        consider "j < i" | "j = i" | "i < j" by linarith
        then show ?thesis
        proof cases
          case 1
          with pj show ?thesis by (simp add: respawned_def)
        next
          case 2
          with pj il ip nz d show ?thesis
            by (simp add: respawned_def dead_between_self newborn_def)
        next
          case 3
          with pj nz d df [OF 3] db [of j] show ?thesis
            by (auto simp: respawned_def dead_between_update)
        qed
      qed
      from r len s show ?thesis
        unfolding eq m b by simp
    next
      case d: False
      let ?p1 = "p[i := (p ! i)\<lparr>key_a := key_a (p ! i) + 1\<rparr>]"
      let ?m1 = "min new (dead_between ?p1 (Suc i) pop)"
      have eq: "respawn_loop rnd avg mut pop i p n new k born =
            respawn_loop rnd avg mut pop (Suc i) ?p1 n new k born"
        using ip nz il d by (rule respawn_alive)
      from "1.prems" ip have "pop \<le> length ?p1" "Suc i \<le> pop" by simp_all
      from "1.IH"(2) [OF ip nz il d this]
      obtain p' where
        r: "respawn_loop rnd avg mut pop (Suc i) ?p1 n new k born =
              Inr (p', n + ?m1, new - ?m1, k + ?m1, born @ [n..<n + ?m1])"
        and len: "length p' = length ?p1"
        and sl: "\<forall>j<length ?p1. p' ! j = respawned rnd avg mut pop (Suc i) ?p1 n new k j"
        by blast
      have db: "dead_between ?p1 (Suc i) j = dead_between p (Suc i) j" for j
        by (rule dead_between_update) simp
      have df: "dead_between p i j = dead_between p (Suc i) j" if "i < j" for j
        using that d by (simp add: dead_between_first)
      have m: "min new (dead_between p i pop) = ?m1"
        using db [of pop] df [OF ip] by (simp only:)
      have s: "p' ! j = respawned rnd avg mut pop i p n new k j" if j: "j < length p" for j
      proof -
        from sl j have pj: "p' ! j = respawned rnd avg mut pop (Suc i) ?p1 n new k j"
          by simp
        consider "j < i" | "j = i" | "i < j" by linarith
        then show ?thesis
        proof cases
          case 1
          with pj show ?thesis by (simp add: respawned_def)
        next
          case 2
          with pj il ip nz d show ?thesis
            by (simp add: respawned_def dead_between_self)
        next
          case 3
          with pj nz d df [OF 3] db [of j] show ?thesis
            by (auto simp: respawned_def dead_between_update)
        qed
      qed
      from r len s show ?thesis
        unfolding eq m by simp
    qed
  qed
qed

subsection \<open>A concrete run\<close>

lemmas run_simps = parent_power_def parent_power_loop.simps print_living_def print_living_vars_def
  print_living_body_def py_div_def respawn_loop.simps pressure_def pressure_loop.simps kill_def
  int_of_float_def eval_nat_numeral Let_def

lemma early_break_initialize:
  "initialize early_break 10 0 =
     ([\<lparr>key_s = 5 / 2, key_l = Alive, key_id = 0, key_a = 0\<rparr>,
       \<lparr>key_s = 5 / 2, key_l = Alive, key_id = 1, key_a = 0\<rparr>,
       \<lparr>key_s = 5 / 2, key_l = Alive, key_id = 2, key_a = 0\<rparr>,
       \<lparr>key_s = 5 / 2, key_l = Alive, key_id = 3, key_a = 0\<rparr>,
       \<lparr>key_s = 5 / 2, key_l = Alive, key_id = 4, key_a = 0\<rparr>,
       \<lparr>key_s = 5 / 2, key_l = Alive, key_id = 5, key_a = 0\<rparr>,
       \<lparr>key_s = 5 / 2, key_l = Alive, key_id = 6, key_a = 0\<rparr>,
       \<lparr>key_s = 5 / 2, key_l = Alive, key_id = 7, key_a = 0\<rparr>,
       \<lparr>key_s = 19 / 4, key_l = Alive, key_id = 8, key_a = 0\<rparr>,
       \<lparr>key_s = 19 / 4, key_l = Alive, key_id = 9, key_a = 0\<rparr>], 10, 10)"
  by (simp add: initialize_def early_break_def eval_nat_numeral)

lemma early_break_generation_0:
  "generation early_break 10 0
     \<lparr>v_p = fst (initialize early_break 10 0), v_n = 10, v_fittest = 0, v_fitid = 0,
      v_old_env = 0, v_oldest = 0, v_oldid = 0, v_oldgen = 0, v_k = 10,
      v_born = map key_id (fst (initialize early_break 10 0))\<rparr> =
   Inr (Continue after_generation_0)"
  unfolding early_break_initialize
  by (simp add: generation_def after_generation_0_def early_break_def run_simps)

lemma early_break_generation_1:
  "generation early_break 10 (Suc 0) after_generation_0 = Inr (Continue after_generation_1)"
  by (simp add: generation_def after_generation_0_def after_generation_1_def early_break_def run_simps)

lemma early_break_run_1:
  "simulate early_break 10 1 = Inr (Succeeded, 0, after_generation_0)"
proof -
  have s1: "simulate_loop early_break 10 (Suc 0) (Suc 0) after_generation_0 =
              Inr (Succeeded, 0, after_generation_0)"
    by (subst simulate_loop.simps) simp
  have "simulate_loop early_break 10 1 0
          \<lparr>v_p = fst (initialize early_break 10 0), v_n = 10, v_fittest = 0, v_fitid = 0,
           v_old_env = 0, v_oldest = 0, v_oldid = 0, v_oldgen = 0, v_k = 10,
           v_born = map key_id (fst (initialize early_break 10 0))\<rparr> =
        Inr (Succeeded, 0, after_generation_0)"
    by (subst simulate_loop.simps) (simp add: early_break_generation_0 s1)
  then show ?thesis
    by (simp add: simulate_def early_break_initialize)
qed

lemma early_break_run_2:
  "simulate early_break 10 2 = Inr (Succeeded, 1, after_generation_1)"
proof -
  have s2: "simulate_loop early_break 10 2 (Suc (Suc 0)) after_generation_1 =
              Inr (Succeeded, 1, after_generation_1)"
    by (subst simulate_loop.simps) simp
  have s1: "simulate_loop early_break 10 2 (Suc 0) after_generation_0 =
              Inr (Succeeded, 1, after_generation_1)"
    by (subst simulate_loop.simps) (simp add: early_break_generation_1 s2)
  have "simulate_loop early_break 10 2 0
          \<lparr>v_p = fst (initialize early_break 10 0), v_n = 10, v_fittest = 0, v_fitid = 0,
           v_old_env = 0, v_oldest = 0, v_oldid = 0, v_oldgen = 0, v_k = 10,
           v_born = map key_id (fst (initialize early_break 10 0))\<rparr> =
        Inr (Succeeded, 1, after_generation_1)"
    by (subst simulate_loop.simps) (simp add: early_break_generation_0 s1)
  then show ?thesis
    by (simp add: simulate_def early_break_initialize)
qed

lemma after_generation_0_parents:
  "parent_power (v_p after_generation_0) 10 = Inr (19 / 4, 2)"
  by (simp add: after_generation_0_def run_simps)

subsection \<open>The length of the list, and the division by the count\<close>

text \<open>
  Claim C9. The list that \<^verbatim>\<open>initialize(pop)\<close> returns has \<^verbatim>\<open>pop\<close> slots. On a
  list of at least \<^verbatim>\<open>pop\<close> slots the respawn loop and \<^verbatim>\<open>pressure\<close> return, with
  a list of the same length. Every run of \<^verbatim>\<open>simulate\<close> over at least one generation
  returns, and its list has \<^verbatim>\<open>pop\<close> slots at the end, whatever the number of
  generations it went through.
\<close>

theorem population_length:
  "length (fst (initialize rnd pop k0)) = pop \<and>
   (pop \<le> length p \<longrightarrow>
      (\<exists>p' n' new' k' born'.
          respawn_loop rnd avg mut pop i p n new k born = Inr (p', n', new', k', born') \<and>
          length p' = length p)) \<and>
   (pop \<le> length p \<longrightarrow>
      (\<exists>p' env k'. pressure rnd p gen pop k = Inr (p', env, k') \<and> length p' = length p)) \<and>
   (0 < generations \<longrightarrow>
      (\<exists>out g v. simulate rnd pop generations = Inr (out, g, v) \<and> length (v_p v) = pop))"
proof (intro conjI impI)
  show "length (fst (initialize rnd pop k0)) = pop"
    by (simp add: initialize_eq)
next
  assume "pop \<le> length p"
  then show "\<exists>p' n' new' k' born'.
          respawn_loop rnd avg mut pop i p n new k born = Inr (p', n', new', k', born') \<and>
          length p' = length p"
    by (rule respawn_loop_length)
next
  assume "pop \<le> length p"
  then obtain p' env k' where r: "pressure rnd p gen pop k = Inr (p', env, k')"
    using pressure_ok by blast
  with pressure_frame [OF r]
  show "\<exists>p' env k'. pressure rnd p gen pop k = Inr (p', env, k') \<and> length p' = length p"
    by blast
next
  assume "0 < generations"
  from simulate_inv [OF this, of rnd pop]
  show "\<exists>out g v. simulate rnd pop generations = Inr (out, g, v) \<and> length (v_p v) = pop"
    by (auto simp: run_inv_def)
qed

theorem population_length_witness:
  "10 \<le> length (v_p after_generation_0) \<and> (0::nat) < 2 \<and>
   length (fst (initialize early_break 10 0)) = 10 \<and>
   (\<exists>p' n' new' k' born'.
       respawn_loop early_break (19 / 4) (1201 / 100) 10 0 (v_p after_generation_0) 10 4 18
         (v_born after_generation_0) = Inr (p', n', new', k', born') \<and>
       length p' = length (v_p after_generation_0)) \<and>
   (\<exists>p' env k'. pressure early_break (v_p after_generation_0) 1 10 18 = Inr (p', env, k') \<and>
       length p' = length (v_p after_generation_0)) \<and>
   simulate early_break 10 2 = Inr (Succeeded, 1, after_generation_1) \<and>
   length (v_p after_generation_1) = 10"
proof -
  have l: "10 \<le> length (v_p after_generation_0)" by (simp add: after_generation_0_def)
  have l1: "length (v_p after_generation_1) = 10" by (simp add: after_generation_1_def)
  from population_length [of early_break 10 0 "v_p after_generation_0" "19 / 4" "1201 / 100" 0
      10 4 18 "v_born after_generation_0" 1 2] l l1 early_break_run_2
  show ?thesis by simp
qed

text \<open>
  Claim C7. When the test \<^verbatim>\<open>avg == 0 or count == 1\<close> on the result of
  \<^verbatim>\<open>parent_power\<close> fails, \<^verbatim>\<open>count\<close> is at least 2 and the division
  \<^verbatim>\<open>6 / count\<close> of the mutation spread returns. No generation and no run of
  \<^verbatim>\<open>simulate\<close> raises ZeroDivisionError.
\<close>

theorem no_division_by_zero:
  "(\<forall>avg count. parent_power p pop = Inr (avg, count) \<and> \<not> (avg = 0 \<or> count = 1) \<longrightarrow>
       2 \<le> count \<and> py_div 6 (real count) = Inr (6 / real count)) \<and>
   generation rnd pop gen v \<noteq> Inl ZeroDivisionError \<and>
   simulate rnd pop generations \<noteq> Inl ZeroDivisionError"
proof (intro conjI allI impI)
  fix avg count
  assume a: "parent_power p pop = Inr (avg, count) \<and> \<not> (avg = 0 \<or> count = 1)"
  with parent_power_zero [of p pop avg count] have "count \<noteq> 0" by blast
  with a show "2 \<le> count" by simp
  then show "py_div 6 (real count) = Inr (6 / real count)" by (simp add: py_div_def)
next
  show "generation rnd pop gen v \<noteq> Inl ZeroDivisionError"
    using generation_error [of rnd pop gen v ZeroDivisionError] by auto
next
  show "simulate rnd pop generations \<noteq> Inl ZeroDivisionError"
    using simulate_loop_error [of rnd pop generations 0 _ ZeroDivisionError]
    by (auto simp: simulate_def split: prod.splits)
qed

theorem no_division_by_zero_witness:
  "parent_power (v_p after_generation_0) 10 = Inr (19 / 4, 2) \<and>
   \<not> ((19 / 4 :: real) = 0 \<or> (2 :: nat) = 1) \<and>
   py_div 6 (real 2) = Inr 3 \<and>
   generation early_break 10 1 after_generation_0 = Inr (Continue after_generation_1) \<and>
   simulate early_break 10 2 \<noteq> Inl ZeroDivisionError"
proof -
  note t = no_division_by_zero [of "v_p after_generation_0" 10 early_break 1 after_generation_0 2]
  have h: "parent_power (v_p after_generation_0) 10 = Inr (19 / 4, 2) \<and>
           \<not> ((19 / 4 :: real) = 0 \<or> (2 :: nat) = 1)"
    using after_generation_0_parents by simp
  from t have "parent_power (v_p after_generation_0) 10 = Inr (19 / 4, 2) \<and>
           \<not> ((19 / 4 :: real) = 0 \<or> (2 :: nat) = 1) \<longrightarrow>
           2 \<le> (2 :: nat) \<and> py_div 6 (real 2) = Inr (6 / real 2)"
    by blast
  with h have d: "py_div 6 (real 2) = Inr 3" by simp
  from t have s: "simulate early_break 10 2 \<noteq> Inl ZeroDivisionError" by blast
  from h d s early_break_generation_1 show ?thesis by simp
qed

subsection \<open>The quota of the respawn loop\<close>

lemma filter_index: "length (filter (\<lambda>t. P (p ! t)) [0..<length p]) = length (filter P p)"
proof -
  have "filter P p = filter P (map (nth p) [0..<length p])" by (simp add: map_nth)
  also have "\<dots> = map (nth p) (filter (P \<circ> nth p) [0..<length p])" by (simp add: filter_map)
  finally show ?thesis by (simp add: comp_def)
qed

lemma parent_power_loop_count:
  "pop \<le> length p \<Longrightarrow> i \<le> pop \<Longrightarrow>
   \<exists>s. parent_power_loop p pop i sm c =
         Inr (s, c + length (filter (\<lambda>t. key_l (p ! t) = Alive) [i..<pop]))"
proof (induction p pop i sm c rule: parent_power_loop.induct)
  case (1 p pop i sm count)
  show ?case
  proof (cases "i < pop")
    case False
    with "1.prems" show ?thesis by (subst parent_power_loop.simps) simp
  next
    case True
    with "1.prems" have il: "i < length p" by simp
    from True have u: "[i..<pop] = i # [Suc i..<pop]" by (simp add: upt_conv_Cons)
    show ?thesis
    proof (cases "key_l (p ! i) = Alive")
      case a: True
      from "1.IH"(1) [OF True il a "1.prems"(1)] True
      obtain s where "parent_power_loop p pop (Suc i) (sm + key_s (p ! i)) (count + 1) =
         Inr (s, count + 1 + length (filter (\<lambda>t. key_l (p ! t) = Alive) [Suc i..<pop]))"
        by auto
      with True il a u show ?thesis by (subst parent_power_loop.simps) simp
    next
      case a: False
      from "1.IH"(2) [OF True il a "1.prems"(1)] True
      obtain s where "parent_power_loop p pop (Suc i) sm count =
         Inr (s, count + length (filter (\<lambda>t. key_l (p ! t) = Alive) [Suc i..<pop]))"
        by auto
      with True il a u show ?thesis by (subst parent_power_loop.simps) simp
    qed
  qed
qed

lemma parent_power_count:
  assumes "parent_power p (length p) = Inr (avg, count)"
  shows "count = length (filter (\<lambda>x. key_l x = Alive) p)"
proof -
  from parent_power_loop_count [of "length p" p 0 0 0]
  obtain s where "parent_power_loop p (length p) 0 0 0 =
      Inr (s, length (filter (\<lambda>t. key_l (p ! t) = Alive) [0..<length p]))" by auto
  with assms have "count = length (filter (\<lambda>t. key_l (p ! t) = Alive) [0..<length p])"
    by (auto simp: parent_power_def split: if_splits)
  with filter_index [of "\<lambda>x. key_l x = Alive" p] show ?thesis by simp
qed

lemma dead_between_all: "dead_between p 0 (length p) = length (filter (\<lambda>x. key_l x = Dead) p)"
  using filter_index [of "\<lambda>x. key_l x = Dead" p] by (simp add: dead_between_def)

text \<open>
  Let the list have \<^verbatim>\<open>pop\<close> slots and let \<^verbatim>\<open>parent_power\<close> count at least two
  Alive ones. The count is the number of Alive slots. The respawn loop, run with the quota
  \<open>2 * count\<close>, returns; it hands out the next \<open>m\<close> ids, where \<open>m\<close> is the smaller of the
  quota and the number of Dead slots. A Dead slot with fewer than \<open>2 * count\<close> Dead slots
  before it holds a newborn whose id is the next id plus the number of Dead slots before
  it; every later Dead slot is as it was.
\<close>

lemma respawn_quota:
  assumes "length p = pop" and "parent_power p pop = Inr (avg, count)" and "2 \<le> count"
  shows "count = length (filter (\<lambda>x. key_l x = Alive) p) \<and>
    (\<exists>p' m. m = min (2 * count) (length (filter (\<lambda>x. key_l x = Dead) p)) \<and>
       respawn_loop rnd avg mut pop 0 p n (count * 2) k born =
         Inr (p', n + m, count * 2 - m, k + m, born @ [n..<n + m]) \<and>
       m \<le> 2 * count \<and> length p' = pop \<and>
       (\<forall>j<pop. key_l (p ! j) = Dead \<longrightarrow>
          p' ! j =
            (if dead_between p 0 j < 2 * count
             then \<lparr>key_s = avg + R_uniform rnd (- 1 * mut) mut (k + dead_between p 0 j),
                   key_l = Alive, key_id = n + dead_between p 0 j, key_a = 0\<rparr>
             else p ! j)))"
proof
  from assms(1,2) show "count = length (filter (\<lambda>x. key_l x = Alive) p)"
    using parent_power_count by blast
next
  let ?m = "min (2 * count) (length (filter (\<lambda>x. key_l x = Dead) p))"
  from assms(1) have d: "dead_between p 0 pop = length (filter (\<lambda>x. key_l x = Dead) p)"
    using dead_between_all by blast
  from assms(1) respawn_loop_slots [of pop p 0 rnd avg mut n "count * 2" k born]
  obtain p' where
    r: "respawn_loop rnd avg mut pop 0 p n (count * 2) k born =
           Inr (p', n + min (count * 2) (dead_between p 0 pop),
                count * 2 - min (count * 2) (dead_between p 0 pop),
                k + min (count * 2) (dead_between p 0 pop),
                born @ [n..<n + min (count * 2) (dead_between p 0 pop)])"
    and len: "length p' = length p"
    and sl: "\<forall>j<length p. p' ! j = respawned rnd avg mut pop 0 p n (count * 2) k j"
    by auto
  have m: "min (count * 2) (dead_between p 0 pop) = ?m" by (simp add: d mult.commute)
  have "p' ! j =
            (if dead_between p 0 j < 2 * count
             then \<lparr>key_s = avg + R_uniform rnd (- 1 * mut) mut (k + dead_between p 0 j),
                   key_l = Alive, key_id = n + dead_between p 0 j, key_a = 0\<rparr>
             else p ! j)" if "j < pop" "key_l (p ! j) = Dead" for j
    using sl that assms(1) by (simp add: respawned_def newborn_def mult.commute)
  with r len assms(1) show "\<exists>p' m. m = ?m \<and>
       respawn_loop rnd avg mut pop 0 p n (count * 2) k born =
         Inr (p', n + m, count * 2 - m, k + m, born @ [n..<n + m]) \<and>
       m \<le> 2 * count \<and> length p' = pop \<and>
       (\<forall>j<pop. key_l (p ! j) = Dead \<longrightarrow>
          p' ! j =
            (if dead_between p 0 j < 2 * count
             then \<lparr>key_s = avg + R_uniform rnd (- 1 * mut) mut (k + dead_between p 0 j),
                   key_l = Alive, key_id = n + dead_between p 0 j, key_a = 0\<rparr>
             else p ! j))"
    unfolding m by (intro exI [of _ p'] exI [of _ ?m]) simp
qed

text \<open>
  A generation that gets past the test \<^verbatim>\<open>avg == 0 or count == 1\<close> runs the loop with
  that quota: the next id moves on by the smaller of \<open>2 * count\<close> and the number of Dead
  slots.
\<close>

lemma generation_births:
  assumes "length (v_p v) = pop" and "parent_power (v_p v) pop = Inr (avg, count)"
    and "avg \<noteq> 0" and "count \<noteq> 1"
  shows "\<exists>v'. generation rnd pop gen v = Inr (Continue v') \<and>
           v_n v' = v_n v + min (2 * count) (length (filter (\<lambda>x. key_l x = Dead) (v_p v))) \<and>
           v_born v' = v_born v @ [v_n v..<v_n v'] \<and> length (v_p v') = pop"
proof -
  from assms(2,3) have "count \<noteq> 0" using parent_power_zero [of "v_p v" pop avg count] by blast
  with assms(4) have c: "2 \<le> count" by simp
  then have dv: "py_div 6 (real count) = Inr (6 / real count)" by (simp add: py_div_def)
  obtain strong sid old oid where pl: "print_living (v_p v) pop = (strong, sid, old, oid)"
    by (cases "print_living (v_p v) pop")
  let ?mut = "real gen / 100 + 3 + (6 / real count) ^ 2"
  let ?m = "min (2 * count) (length (filter (\<lambda>x. key_l x = Dead) (v_p v)))"
  from respawn_quota [OF assms(1,2) c, of rnd ?mut "v_n v" "v_k v" "v_born v"]
  obtain p1 where
    rs: "respawn_loop rnd avg ?mut pop 0 (v_p v) (v_n v) (count * 2) (v_k v) (v_born v) =
           Inr (p1, v_n v + ?m, count * 2 - ?m, v_k v + ?m, v_born v @ [v_n v..<v_n v + ?m])"
    and l1: "length p1 = pop"
    by auto
  from pressure_ok [of pop p1 rnd gen "v_k v + ?m"] l1
  obtain p2 env k2 where pr: "pressure rnd p1 gen pop (v_k v + ?m) = Inr (p2, env, k2)" by auto
  from pressure_frame [OF pr] l1 have l2: "length p2 = pop" by simp
  from assms(2,3,4) pl dv rs pr l2 show ?thesis
    by (simp add: generation_def)
qed

lemma zero_pair_initialize:
  "initialize zero_pair 10 0 =
     ([\<lparr>key_s = 5 / 2, key_l = Alive, key_id = 0, key_a = 0\<rparr>,
       \<lparr>key_s = 5 / 2, key_l = Alive, key_id = 1, key_a = 0\<rparr>,
       \<lparr>key_s = 5 / 2, key_l = Alive, key_id = 2, key_a = 0\<rparr>,
       \<lparr>key_s = 5 / 2, key_l = Alive, key_id = 3, key_a = 0\<rparr>,
       \<lparr>key_s = 5 / 2, key_l = Alive, key_id = 4, key_a = 0\<rparr>,
       \<lparr>key_s = 5 / 2, key_l = Alive, key_id = 5, key_a = 0\<rparr>,
       \<lparr>key_s = 5 / 2, key_l = Alive, key_id = 6, key_a = 0\<rparr>,
       \<lparr>key_s = 5 / 2, key_l = Alive, key_id = 7, key_a = 0\<rparr>,
       \<lparr>key_s = 0, key_l = Alive, key_id = 8, key_a = 0\<rparr>,
       \<lparr>key_s = 0, key_l = Alive, key_id = 9, key_a = 0\<rparr>], 10, 10)"
  by (simp add: initialize_def zero_pair_def eval_nat_numeral)

lemma zero_pair_generation_0:
  "generation zero_pair 10 0
     \<lparr>v_p = fst (initialize zero_pair 10 0), v_n = 10, v_fittest = 0, v_fitid = 0,
      v_old_env = 0, v_oldest = 0, v_oldid = 0, v_oldgen = 0, v_k = 10,
      v_born = map key_id (fst (initialize zero_pair 10 0))\<rparr> =
   Inr (Continue after_zero_pair)"
  unfolding zero_pair_initialize
  by (simp add: generation_def after_zero_pair_def zero_pair_def run_simps)

lemma zero_pair_parents: "parent_power (v_p after_zero_pair) 10 = Inr (0, 2)"
  by (simp add: after_zero_pair_def run_simps)

lemma zero_pair_generation_1:
  "generation zero_pair 10 (Suc 0) after_zero_pair = Inr (Return after_zero_pair)"
  by (simp add: generation_def zero_pair_parents)

text \<open>
  Claim C3. The reproduction pass of a generation is reached only after the test
  \<^verbatim>\<open>avg == 0 or count == 1\<close>. In the run below eight of ten individuals die in
  generation 0 and the two survivors have power 0. Generation 1 starts with two Alive and
  eight Dead slots, so with a quota of 4; the test ends the run there, and no individual is
  born: the next id is still 10.
\<close>

theorem two_alive_none_born:
  "simulate zero_pair 10 1 = Inr (Succeeded, 0, after_zero_pair) \<and>
   parent_power (v_p after_zero_pair) 10 = Inr (0, 2) \<and>
   length (filter (\<lambda>x. key_l x = Dead) (v_p after_zero_pair)) = 8 \<and>
   generation zero_pair 10 1 after_zero_pair = Inr (Return after_zero_pair) \<and>
   simulate zero_pair 10 51 = Inr (Extinct, 1, after_zero_pair) \<and>
   v_n after_zero_pair = 10"
proof -
  let ?v0 = "\<lparr>v_p = fst (initialize zero_pair 10 0), v_n = 10, v_fittest = 0, v_fitid = 0,
           v_old_env = 0, v_oldest = 0, v_oldid = 0, v_oldgen = 0, v_k = 10,
           v_born = map key_id (fst (initialize zero_pair 10 0))\<rparr>"
  have a1: "simulate_loop zero_pair 10 (Suc 0) (Suc 0) after_zero_pair =
              Inr (Succeeded, 0, after_zero_pair)"
    by (subst simulate_loop.simps) simp
  have a0: "simulate_loop zero_pair 10 (Suc 0) 0 ?v0 = Inr (Succeeded, 0, after_zero_pair)"
    by (subst simulate_loop.simps) (simp add: zero_pair_generation_0 a1)
  have r1: "simulate zero_pair 10 1 = Inr (Succeeded, 0, after_zero_pair)"
    using a0 by (simp add: simulate_def zero_pair_initialize)
  have b1: "simulate_loop zero_pair 10 51 (Suc 0) after_zero_pair =
              Inr (Extinct, Suc 0, after_zero_pair)"
    by (subst simulate_loop.simps) (simp add: zero_pair_generation_1)
  have b0: "simulate_loop zero_pair 10 51 0 ?v0 = Inr (Extinct, Suc 0, after_zero_pair)"
    by (subst simulate_loop.simps) (simp add: zero_pair_generation_0 b1)
  have r51: "simulate zero_pair 10 51 = Inr (Extinct, 1, after_zero_pair)"
    using b0 by (simp add: simulate_def zero_pair_initialize)
  have d: "length (filter (\<lambda>x. key_l x = Dead) (v_p after_zero_pair)) = 8"
    and n: "v_n after_zero_pair = 10"
    by (simp_all add: after_zero_pair_def)
  from r1 r51 d n zero_pair_parents zero_pair_generation_1 show ?thesis by simp
qed

subsection \<open>The ids\<close>



subsection \<open>Extinction with survivors, ages that stand still, and an unchecked bound\<close>

lemma parent_power_loop_zero_powers:
  "i \<le> pop \<Longrightarrow> pop \<le> length p \<Longrightarrow> \<forall>x\<in>set p. key_l x = Alive \<and> key_s x = 0 \<Longrightarrow>
   parent_power_loop p pop i 0 c = Inr (0, c + (pop - i))"
proof (induction p pop i "0::real" c rule: parent_power_loop.induct)
  case (1 p pop i count)
  show ?case
  proof (cases "i < pop")
    case True
    with "1.prems" have "i < length p" "key_l (p ! i) = Alive" "key_s (p ! i) = 0" by simp_all
    with True "1.hyps"(1) "1.prems" show ?thesis
      by (subst parent_power_loop.simps) simp
  next
    case False
    with "1.prems" show ?thesis by (subst parent_power_loop.simps) simp
  qed
qed

text \<open>
  Claim C1. The test that ends the run is \<^verbatim>\<open>avg == 0 or count == 1\<close>, and the average
  is 0 not only when nothing is alive. With ten slots, 51 generations and a
  \<^verbatim>\<open>triangular\<close> that returns 0 ten times, \<^verbatim>\<open>parent_power\<close> counts ten Alive
  individuals of average power 0 and the run ends at generation 0 as extinct.
\<close>

theorem extinct_with_ten_alive:
  "simulate lowest_draws 10 51 =
     Inr (Extinct, 0,
       \<lparr>v_p = map (\<lambda>j. \<lparr>key_s = 0, key_l = Alive, key_id = j, key_a = 0\<rparr>) [0..<10], v_n = 10,
        v_fittest = 0, v_fitid = 0, v_old_env = 0, v_oldest = 0,
        v_oldid = 0, v_oldgen = 0, v_k = 10, v_born = [0..<10]\<rparr>) \<and>
   parent_power (map (\<lambda>j. \<lparr>key_s = 0, key_l = Alive, key_id = j, key_a = 0\<rparr>) [0..<10]) 10 =
     Inr (0, 10)"
proof -
  let ?p = "map (\<lambda>j. \<lparr>key_s = 0, key_l = Alive, key_id = j, key_a = 0\<rparr>) [0..<10]"
  have i: "initialize lowest_draws 10 0 = (?p, 10, 10)"
    by (simp add: initialize_eq lowest_draws_def)
  have "parent_power_loop ?p 10 0 0 0 = Inr (0, 0 + (10 - 0))"
    by (rule parent_power_loop_zero_powers) auto
  then have pp: "parent_power ?p 10 = Inr (0, 10)" by (simp add: parent_power_def)
  have "simulate lowest_draws 10 51 =
     Inr (Extinct, 0,
       \<lparr>v_p = ?p, v_n = 10, v_fittest = 0, v_fitid = 0, v_old_env = 0, v_oldest = 0,
        v_oldid = 0, v_oldgen = 0, v_k = 10, v_born = [0..<10]\<rparr>)"
    unfolding simulate_def i
    by (subst simulate_loop.simps) (simp add: generation_def pp comp_def del: upt_Suc)
  with pp show ?thesis by simp
qed

text \<open>
  Claim C4. The respawn loop breaks as soon as the quota is used up, and the Alive slots
  after that point are not aged. In the run below eight of ten individuals die in
  generation 0. In generation 1 the quota is 4: the loop fills slots 0 to 3 and breaks at
  slot 4. The individuals 8 and 9 are Alive before and after generation 1, and their age
  is 1 before and after.
\<close>

theorem alive_slot_not_aged:
  "simulate early_break 10 1 = Inr (Succeeded, 0, after_generation_0) \<and>
   generation early_break 10 1 after_generation_0 = Inr (Continue after_generation_1) \<and>
   simulate early_break 10 2 = Inr (Succeeded, 1, after_generation_1) \<and>
   v_p after_generation_0 ! 8 = \<lparr>key_s = 19 / 4, key_l = Alive, key_id = 8, key_a = 1\<rparr> \<and>
   v_p after_generation_1 ! 8 = \<lparr>key_s = 19 / 4, key_l = Alive, key_id = 8, key_a = 1\<rparr>"
proof -
  have "v_p after_generation_0 ! 8 = \<lparr>key_s = 19 / 4, key_l = Alive, key_id = 8, key_a = 1\<rparr>"
    by (simp add: after_generation_0_def eval_nat_numeral)
  moreover
  have "v_p after_generation_1 ! 8 = \<lparr>key_s = 19 / 4, key_l = Alive, key_id = 8, key_a = 1\<rparr>"
    by (simp add: after_generation_1_def eval_nat_numeral)
  ultimately show ?thesis
    using early_break_run_1 early_break_run_2 early_break_generation_1 by simp
qed

text \<open>
  Claim C6. The script tests the population size against 10 only: no line of it compares
  the size with 100000. On the two lines 100001 and 51 it prints no message and calls
  \<^verbatim>\<open>simulate(100001, 51)\<close>.
\<close>

theorem script_accepts_100001:
  "script int_of_two_lines rnd ''100001'' ''51'' = Simulated (simulate rnd 100001 51)"
  by (simp add: script_def int_of_two_lines_def)

subsection \<open>The extremes of print\_living\<close>

lemmas living_simps = print_living_def print_living_vars_def print_living_body_def Let_def

text \<open>
  Claim C5. \<^verbatim>\<open>print_living\<close> starts \<^verbatim>\<open>strong\<close> at 0 and \<^verbatim>\<open>old\<close> at 1, both
  with the id 0, and \<^verbatim>\<open>weak\<close> at 0, which it also reads as not set yet. On the ten
  individuals that \<^verbatim>\<open>initialize\<close> returns, all Alive and of age 0, the age returned is
  1 with the id 0. With two Alive individuals of powers -1 and -2 and ids 5 and 6, the
  power returned is 0 with the id 0. With two Alive individuals of powers 0 and 3, the
  weakest power found is 3.
\<close>

theorem print_living_sentinels:
  "print_living (fst (initialize early_break 10 0)) 10 = (19 / 4, 8, 1, 0) \<and>
   map key_a (fst (initialize early_break 10 0)) = [0, 0, 0, 0, 0, 0, 0, 0, 0, 0] \<and>
   map key_l (fst (initialize early_break 10 0)) =
     [Alive, Alive, Alive, Alive, Alive, Alive, Alive, Alive, Alive, Alive] \<and>
   print_living below_zero 2 = (0, 0, 2, 5) \<and>
   map key_s below_zero = [- 1, - 2] \<and> map key_l below_zero = [Alive, Alive] \<and>
   pl_weak (print_living_vars zero_first) = 3 \<and> pl_wid (print_living_vars zero_first) = 1 \<and>
   map key_s zero_first = [0, 3] \<and> map key_l zero_first = [Alive, Alive]"
  by (simp add: early_break_initialize below_zero_def zero_first_def living_simps)

end
